theory Spec2Isabelle
  imports Complex_Main "HOL-Library.Word"
begin

unbundle bit_operations_syntax

chapter \<open>The YouTube-to-TikTok relay: a model of its pipeline\<close>

text \<open>
  The development follows the Python sources: \<^verbatim>\<open>ffmpeg_split.py\<close> (segmentation),
  \<^verbatim>\<open>video_duration_utils.py\<close> (duration policy), \<^verbatim>\<open>youtube_monitor.py\<close> (polling
  path, download, upload workers, caches) and \<^verbatim>\<open>youtube_monitor_pubsub.py\<close> (push path).
  Durations are Python floats in the source; they are modelled as exact rationals.
  External tools (yt-dlp, pytube, moviepy, ffmpeg, the TikTok uploader, the file system)
  appear as explicit outcomes supplied by the environment.
\<close>

section \<open>Segmentation: \<^verbatim>\<open>ffmpeg_split_video\<close>\<close>

text \<open>\<^verbatim>\<open>max_possible_parts = int(duration // part_duration)\<close>\<close>

definition max_possible_parts :: "rat \<Rightarrow> int \<Rightarrow> int" where
  "max_possible_parts duration part_duration = \<lfloor>duration / of_int part_duration\<rfloor>"

text \<open>
  \<^verbatim>\<open>actual_num_parts = min(num_parts, max_possible_parts)\<close>, raised to at least one
  when \<^verbatim>\<open>duration >= 3.0\<close>.
\<close>

definition actual_num_parts :: "rat \<Rightarrow> int \<Rightarrow> int \<Rightarrow> int" where
  "actual_num_parts duration num_parts part_duration =
     (let actual = min num_parts (max_possible_parts duration part_duration)
      in if duration \<ge> 3 then max 1 actual else actual)"

text \<open>
  The body of \<^verbatim>\<open>for i in range(actual_num_parts)\<close>: \<^verbatim>\<open>break\<close> when the start lies
  at or past the end of the video, \<^verbatim>\<open>continue\<close> when the part would be shorter than
  three seconds, otherwise ffmpeg is run on \<open>(start_time, end_time)\<close>.
\<close>

fun split_loop :: "rat \<Rightarrow> int \<Rightarrow> nat list \<Rightarrow> (rat \<times> rat) list" where
  "split_loop duration part_duration [] = []"
| "split_loop duration part_duration (i # rest) =
     (let start_time = of_int (int i * part_duration) in
      if start_time \<ge> duration then []
      else
        let end_time = min (of_int ((int i + 1) * part_duration)) duration;
            part_actual_duration = end_time - start_time
        in if part_actual_duration < 3 then split_loop duration part_duration rest
           else (start_time, end_time) # split_loop duration part_duration rest)"

text \<open>
  The segments the splitter cuts, in order. A \<^verbatim>\<open>max_duration\<close> of zero makes the floor
  division raise, which the function's outer handler turns into the empty result.
\<close>

definition segment_plan :: "rat \<Rightarrow> int \<Rightarrow> int \<Rightarrow> (rat \<times> rat) list" where
  "segment_plan duration num_parts max_duration =
     (if max_duration = 0 then []
      else split_loop duration max_duration
             [0 ..< nat (actual_num_parts duration num_parts max_duration)])"

text \<open>
  The whole function: the input file must exist, moviepy must report a duration
  (\<open>None\<close> when it raises), and a part is listed in the result only when ffmpeg
  succeeded on it (\<open>extract_ok\<close>).
\<close>

definition ffmpeg_split_video ::
    "bool \<Rightarrow> rat option \<Rightarrow> (rat \<times> rat \<Rightarrow> bool) \<Rightarrow> int \<Rightarrow> int \<Rightarrow> (rat \<times> rat) list" where
  "ffmpeg_split_video file_exists probed extract_ok num_parts max_duration =
     (if \<not> file_exists then []
      else case probed of
             None \<Rightarrow> []
           | Some duration \<Rightarrow> filter extract_ok (segment_plan duration num_parts max_duration))"

text \<open>Each segment starts where the one before it ends.\<close>

fun contiguous :: "(rat \<times> rat) list \<Rightarrow> bool" where
  "contiguous [] = True"
| "contiguous [x] = True"
| "contiguous (x # y # zs) = (snd x = fst y \<and> contiguous (y # zs))"

section \<open>Duration policy: \<^verbatim>\<open>video_duration_utils.py\<close>\<close>

text \<open>
  \<^verbatim>\<open>check_video_duration_requirements\<close>; the argument is what \<^verbatim>\<open>get_video_duration\<close>
  returned, which is \<open>0\<close> when probing failed.
\<close>

definition check_video_duration_requirements :: "rat \<Rightarrow> bool \<times> rat" where
  "check_video_duration_requirements duration =
     (if duration = 0 then (False, 0)
      else if duration < 3 then (False, duration)
      else if duration > 120 then (False, duration)
      else (True, duration))"

text \<open>
  \<^verbatim>\<open>extend_video_to_minimum_duration\<close>. The result is \<open>None\<close> when encoding raised,
  otherwise a pair: whether a new \<^verbatim>\<open>_extended.mp4\<close> file was written, and the duration of
  the file returned. The clip list holds the durations of the clips that are
  concatenated: the whole video, then \<^verbatim>\<open>video.subclip(0, loop_duration)\<close>.
\<close>

definition extend_video_to_minimum_duration :: "bool \<Rightarrow> rat \<Rightarrow> rat \<Rightarrow> (bool \<times> rat) option" where
  "extend_video_to_minimum_duration write_ok original_duration target_duration =
     (if original_duration \<ge> target_duration then Some (False, original_duration)
      else
        let remaining_time = target_duration - original_duration;
            clips = [original_duration] @
                    (if remaining_time > 0 then [min remaining_time original_duration] else [])
        in if write_ok then Some (True, sum_list clips) else None)"

text \<open>\<^verbatim>\<open>process_video_for_upload\<close>: \<open>(should_upload, processed file)\<close>.\<close>

definition process_video_for_upload :: "bool \<Rightarrow> rat \<Rightarrow> bool \<times> (bool \<times> rat) option" where
  "process_video_for_upload write_ok probed =
     (case check_video_duration_requirements probed of
        (is_valid, duration) \<Rightarrow>
          if \<not> is_valid then (False, None)
          else if duration < 60 then
            (case extend_video_to_minimum_duration write_ok duration 63 of
               Some extended \<Rightarrow> (True, Some extended)
             | None \<Rightarrow> (False, None))
          else (True, Some (False, duration)))"

section \<open>Download stage: \<^verbatim>\<open>download_video\<close> and its pytube fallback\<close>

text \<open>The file at \<^verbatim>\<open>output_path\<close>: absent, or present with a size in bytes.\<close>

datatype file_state = Absent | Present nat

text \<open>
  One yt-dlp run either raises or returns, and leaves the output file in some state.
  The pytube fallback raises, finds no stream (and then downloads nothing), or returns
  from \<^verbatim>\<open>stream.download\<close>.
\<close>

datatype attempt = Raises file_state | Returns file_state

datatype fallback = Fallback_raises file_state | No_streams | Fallback_returns file_state

record download_result =
  returned_path :: bool
  file_after :: file_state
  primary_attempts :: nat
  fallback_attempts :: nat

definition download_video_pytube_fallback :: "fallback \<Rightarrow> file_state \<Rightarrow> bool \<times> file_state" where
  "download_video_pytube_fallback pytube fs =
     (case pytube of
        Fallback_raises fs' \<Rightarrow> (False, fs')
      | No_streams \<Rightarrow> (False, fs)
      | Fallback_returns fs' \<Rightarrow>
          (case fs' of
             Present n \<Rightarrow> if n > 0 then (True, fs') else (False, fs')
           | Absent \<Rightarrow> (False, fs')))"

text \<open>
  The \<^verbatim>\<open>while attempt < max_attempts\<close> loop; \<open>ytdlp k\<close> is the outcome of attempt
  \<open>k\<close>. \<^verbatim>\<open>os.remove\<close> is taken to succeed.
\<close>

function download_loop ::
    "(nat \<Rightarrow> attempt) \<Rightarrow> fallback \<Rightarrow> nat \<Rightarrow> nat \<Rightarrow> file_state \<Rightarrow> download_result" where
  "download_loop ytdlp pytube max_attempts attempt fs =
     (if attempt < max_attempts then
        (case ytdlp (attempt + 1) of
           Returns fs' \<Rightarrow>
             (case fs' of
                Present n \<Rightarrow>
                  if n > 0 then
                    \<lparr>returned_path = True, file_after = fs',
                     primary_attempts = attempt + 1, fallback_attempts = 0\<rparr>
                  else download_loop ytdlp pytube max_attempts (attempt + 1) Absent
              | Absent \<Rightarrow> download_loop ytdlp pytube max_attempts (attempt + 1) Absent)
         | Raises fs' \<Rightarrow>
             if attempt + 1 < max_attempts
             then download_loop ytdlp pytube max_attempts (attempt + 1) fs'
             else \<lparr>returned_path = False, file_after = Absent,
                   primary_attempts = attempt + 1, fallback_attempts = 0\<rparr>)
      else
        (case download_video_pytube_fallback pytube fs of
           (ok, fs') \<Rightarrow>
             \<lparr>returned_path = ok, file_after = fs',
              primary_attempts = attempt, fallback_attempts = 1\<rparr>))"
  by pat_completeness auto
termination
  by (relation "measure (\<lambda>(ytdlp, pytube, max_attempts, attempt, fs). max_attempts - attempt)") auto

declare download_loop.simps [simp del]

definition download_video :: "(nat \<Rightarrow> attempt) \<Rightarrow> fallback \<Rightarrow> file_state \<Rightarrow> download_result" where
  "download_video ytdlp pytube fs = download_loop ytdlp pytube 2 0 fs"

section \<open>Upload fan-out: \<^verbatim>\<open>upload_part_worker\<close>\<close>

text \<open>
  What one worker did: how often it called \<^verbatim>\<open>upload_to_tiktok\<close>, how often it called
  \<^verbatim>\<open>os.remove\<close> on the part, and the part file afterwards. \<open>upload_ok\<close> is the result
  of the upload call (which turns every exception into \<open>False\<close>), \<open>remove_ok\<close>
  tells whether \<^verbatim>\<open>os.remove\<close> went through.
\<close>

record worker_result =
  upload_calls :: nat
  remove_calls :: nat
  part_after :: file_state

definition upload_part_worker :: "bool \<Rightarrow> bool \<Rightarrow> file_state \<Rightarrow> worker_result" where
  "upload_part_worker upload_ok remove_ok part =
     (case part of
        Absent \<Rightarrow> \<lparr>upload_calls = 0, remove_calls = 0, part_after = Absent\<rparr>
      | Present file_size \<Rightarrow>
          if file_size = 0 then \<lparr>upload_calls = 0, remove_calls = 0, part_after = Present 0\<rparr>
          else if upload_ok then
            \<lparr>upload_calls = 1, remove_calls = 1,
             part_after = (if remove_ok then Absent else Present file_size)\<rparr>
          else \<lparr>upload_calls = 1, remove_calls = 0, part_after = Present file_size\<rparr>)"

section \<open>The channel-list cache: \<^verbatim>\<open>cache_scrapetube_data\<close>\<close>

text \<open>
  \<^verbatim>\<open>scrapetube_cache\<close> is an \<^verbatim>\<open>OrderedDict\<close>: an association list in insertion order
  with distinct keys. Assigning to a key that is present replaces its value where it
  stands; assigning to a new key appends it.
\<close>

fun od_setitem :: "('k \<times> 'v) list \<Rightarrow> 'k \<Rightarrow> 'v \<Rightarrow> ('k \<times> 'v) list" where
  "od_setitem [] k v = [(k, v)]"
| "od_setitem ((k', v') # rest) k v =
     (if k' = k then (k, v) # rest else (k', v') # od_setitem rest k v)"

text \<open>\<^verbatim>\<open>popitem(last=False)\<close> on a non-empty dictionary.\<close>

definition od_popitem_first :: "('k \<times> 'v) list \<Rightarrow> ('k \<times> 'v) list" where
  "od_popitem_first d = tl d"

record 'v cache_state =
  scrapetube_cache :: "(string \<times> ('v \<times> rat)) list"
  max_cache_size :: nat
  scrapetube_cache_file :: "(string \<times> ('v \<times> rat)) list"

text \<open>The state \<^verbatim>\<open>__init__\<close> sets up when no cache file exists.\<close>

definition init_cache :: "'v cache_state" where
  "init_cache = \<lparr>scrapetube_cache = [], max_cache_size = 50, scrapetube_cache_file = []\<rparr>"

definition cache_key :: "string \<Rightarrow> string" where
  "cache_key channel_id = ''scrapetube_'' @ channel_id"

text \<open>\<open>now\<close> is the value of \<^verbatim>\<open>time.time()\<close>.\<close>

definition cache_scrapetube_data :: "'v cache_state \<Rightarrow> string \<Rightarrow> 'v \<Rightarrow> rat \<Rightarrow> 'v cache_state" where
  "cache_scrapetube_data st channel_id videos now =
     (let c1 = od_setitem (scrapetube_cache st) (cache_key channel_id) (videos, now);
          c2 = (if length c1 > max_cache_size st then od_popitem_first c1 else c1)
      in if length c2 mod 10 = 0
         then st\<lparr>scrapetube_cache := c2, scrapetube_cache_file := c2\<rparr>
         else st\<lparr>scrapetube_cache := c2\<rparr>)"

text \<open>A run of puts, each \<open>(channel_id, videos, now)\<close>.\<close>

fun cache_all :: "'v cache_state \<Rightarrow> (string \<times> 'v \<times> rat) list \<Rightarrow> 'v cache_state" where
  "cache_all st [] = st"
| "cache_all st ((channel_id, videos, now) # rest) =
     cache_all (cache_scrapetube_data st channel_id videos now) rest"

section \<open>Routing: \<^verbatim>\<open>find_channel_for_video\<close>\<close>

text \<open>
  A configured channel and a video are Python dictionaries; a field is \<open>None\<close> when
  the key is missing. The \<^verbatim>\<open>proxy\<close> entry of a channel is itself a dictionary, kept
  as an association list from keys to the text of their values.
\<close>

record channel =
  ch_name :: "string option"
  ch_channel_id :: "string option"
  ch_tiktok_cookie :: "string option"
  ch_proxy :: "(string \<times> string) list option"

record video =
  v_id :: "string option"
  v_title :: "string option"
  v_url :: "string option"
  v_author :: "string option"
  v_channel_id :: "string option"

text \<open>Python truthiness of an optional string.\<close>

definition truthy :: "string option \<Rightarrow> bool" where
  "truthy s = (case s of None \<Rightarrow> False | Some x \<Rightarrow> x \<noteq> [])"

text \<open>
  The fall-back branches log \<^verbatim>\<open>default_channel['name']\<close>; a first channel without a
  name raises \<^verbatim>\<open>KeyError\<close> there, and the handler returns \<open>None\<close>.
\<close>

definition default_channel :: "channel list \<Rightarrow> channel option" where
  "default_channel channels =
     (case channels of
        [] \<Rightarrow> None
      | c # _ \<Rightarrow> (case ch_name c of None \<Rightarrow> None | Some _ \<Rightarrow> Some c))"

fun match_channel :: "channel list \<Rightarrow> string \<Rightarrow> channel option" where
  "match_channel [] video_channel_id = None"
| "match_channel (c # rest) video_channel_id =
     (if (case ch_channel_id c of None \<Rightarrow> [] | Some x \<Rightarrow> x) = video_channel_id
      then Some c else match_channel rest video_channel_id)"

definition find_channel_for_video :: "channel list \<Rightarrow> video \<Rightarrow> channel option" where
  "find_channel_for_video channels v =
     (case v_channel_id v of
        None \<Rightarrow> default_channel channels
      | Some video_channel_id \<Rightarrow>
          if video_channel_id = [] then default_channel channels
          else case match_channel channels video_channel_id of
                 Some c \<Rightarrow> Some c
               | None \<Rightarrow> default_channel channels)"

text \<open>
  \<^verbatim>\<open>tiktok_cookie = channel.get("tiktok_cookie", "default") if channel else "default"\<close>
\<close>

definition job_tiktok_cookie :: "channel option \<Rightarrow> string" where
  "job_tiktok_cookie found =
     (case found of
        None \<Rightarrow> ''default''
      | Some c \<Rightarrow> (case ch_tiktok_cookie c of None \<Rightarrow> ''default'' | Some k \<Rightarrow> k))"

text \<open>\<^verbatim>\<open>channel.get("name", "Unknown") if channel else "Unknown"\<close>\<close>

definition job_channel_name :: "channel option \<Rightarrow> string" where
  "job_channel_name found =
     (case found of
        None \<Rightarrow> ''Unknown''
      | Some c \<Rightarrow> (case ch_name c of None \<Rightarrow> ''Unknown'' | Some n \<Rightarrow> n))"

text \<open>
  \<^verbatim>\<open>f"{proxy['ip']}:{proxy['port']}:{proxy['username']}:{proxy['password']}"\<close>;
  \<open>None\<close> when one of the four keys is missing and the indexing raises
  \<^verbatim>\<open>KeyError\<close>.
\<close>

definition format_proxy :: "(string \<times> string) list \<Rightarrow> string option" where
  "format_proxy proxy_info =
     (case map_of proxy_info ''ip'' of
        None \<Rightarrow> None
      | Some ip \<Rightarrow>
     (case map_of proxy_info ''port'' of
        None \<Rightarrow> None
      | Some port \<Rightarrow>
     (case map_of proxy_info ''username'' of
        None \<Rightarrow> None
      | Some username \<Rightarrow>
     (case map_of proxy_info ''password'' of
        None \<Rightarrow> None
      | Some password \<Rightarrow> Some (ip @ '':'' @ port @ '':'' @ username @ '':'' @ password)))))"

text \<open>
  The proxy argument both paths build for \<^verbatim>\<open>split_video\<close> from the \<^verbatim>\<open>proxy\<close> entry:
  \<open>Some None\<close> when the entry is missing or empty (no proxy), \<open>Some (Some s)\<close> for the
  proxy string \<open>s\<close>, and \<open>None\<close> when building the string raises.
\<close>

definition proxy_config_of :: "(string \<times> string) list option \<Rightarrow> string option option" where
  "proxy_config_of proxy =
     (case proxy of
        None \<Rightarrow> Some None
      | Some proxy_info \<Rightarrow>
          if proxy_info = [] then Some None
          else (case format_proxy proxy_info of
                  None \<Rightarrow> None
                | Some s \<Rightarrow> Some (Some s)))"

section \<open>The dedup digest: \<^verbatim>\<open>hashlib.md5(...).hexdigest()\<close>\<close>















section \<open>The polling path: \<^verbatim>\<open>YouTubeMonitor\<close>\<close>

text \<open>
  The fields of \<^verbatim>\<open>YouTubeMonitor\<close> the pipeline reads and writes. The three
  configuration fields hold what \<^verbatim>\<open>config.get\<close> yields (defaults 3, 113 and
  \<open>True\<close>); the two \<open>_file\<close> fields are the contents of
  \<^verbatim>\<open>processed_videos.json\<close> and \<^verbatim>\<open>video_hash_cache.pkl\<close> on disk.
\<close>

record monitor =
  video_parts :: int
  video_duration_limit :: int
  auto_upload :: bool
  video_hash_cache :: "string set"
  processed_videos :: "string list"
  processed_videos_file :: "string list"
  video_hash_cache_file :: "string set"



text \<open>
  What the environment does during one job: the yt-dlp attempts and the pytube
  fallback, the duration moviepy reports for the downloaded file (\<open>0\<close> when probing
  fails), whether writing the extended file succeeds, and on which segments ffmpeg
  succeeds.
\<close>

record job_env =
  ytdlp :: "nat \<Rightarrow> attempt"
  pytube :: fallback
  probed_duration :: rat
  write_ok :: bool
  extract_ok :: "rat \<times> rat \<Rightarrow> bool"

text \<open>
  The arguments one upload worker thread is started with: the part, the title, the
  TikTok cookie name and the proxy string.
\<close>

record upload_request =
  up_part :: "rat \<times> rat"
  up_title :: string
  up_cookie :: string
  up_proxy :: "string option"

text \<open>
  \<^verbatim>\<open>split_video\<close>: duration policy first, then the splitter on the processed file,
  with the monitor's own \<^verbatim>\<open>video_duration_limit\<close>. When \<^verbatim>\<open>auto_upload\<close> is set, one
  upload worker is started for each part and all are joined. The result is the list of
  parts the function returns, and the workers it started.
\<close>

definition split_video ::
    "monitor \<Rightarrow> job_env \<Rightarrow> bool \<Rightarrow> int \<Rightarrow> string \<Rightarrow> string \<Rightarrow> string option
      \<Rightarrow> (rat \<times> rat) list \<times> upload_request list" where
  "split_video m env file_exists num_parts video_title tiktok_cookie proxy_config =
     (if \<not> file_exists then ([], [])
      else case process_video_for_upload (write_ok env) (probed_duration env) of
             (should_upload, processed) \<Rightarrow>
               if \<not> should_upload then ([], [])
               else case processed of
                      None \<Rightarrow> ([], [])
                    | Some (extended, duration) \<Rightarrow>
                        let split_videos =
                              ffmpeg_split_video True (Some duration) (extract_ok env)
                                num_parts (video_duration_limit m)
                        in if split_videos = [] then ([], [])
                           else if auto_upload m then
                             (split_videos,
                              map (\<lambda>part_path.
                                     \<lparr>up_part = part_path, up_title = video_title,
                                      up_cookie = tiktok_cookie, up_proxy = proxy_config\<rparr>)
                                  split_videos)
                           else (split_videos, []))"

text \<open>\<^verbatim>\<open>dict.get(key, default)\<close>\<close>

definition get_or :: "'a option \<Rightarrow> 'a \<Rightarrow> 'a" where
  "get_or x d = (case x of None \<Rightarrow> d | Some y \<Rightarrow> y)"



section \<open>The push path: \<^verbatim>\<open>YouTubeMonitorPubSub\<close>\<close>

text \<open>
  \<open>yt_monitor\<close> is the \<^verbatim>\<open>YouTubeMonitor\<close> instance the push path creates on first
  use and keeps. \<^verbatim>\<open>video.get('id')\<close> may be \<open>None\<close>, so the set of processed ids
  holds optional strings.
\<close>

record pubsub =
  ps_channels :: "channel list"
  ps_auto_upload :: bool
  ps_processed_videos :: "string option set"
  ps_processed_videos_file :: "string option set"
  processing_video :: bool
  notifications_received :: nat
  videos_processed :: nat
  yt_monitor :: monitor

datatype push_outcome =
  Push_already_processed | Push_not_uploaded | Push_dropped | Push_no_url | Push_error
  | Push_download_failed | Push_split_failed | Push_completed

text \<open>
  The \<^verbatim>\<open>try\<close> block of \<^verbatim>\<open>process_video_async\<close>: the URL test, routing
  (\<^verbatim>\<open>find_channel_for_video\<close>, the cookie and the channel name), the download, the
  channel's proxy, and \<^verbatim>\<open>split_video\<close> with five parts. A video without an id raises
  \<^verbatim>\<open>KeyError\<close> at \<^verbatim>\<open>video['id']\<close>, and a proxy entry without one of its keys raises
  when the proxy string is built; the handler logs both (\<open>Push_error\<close>). The result
  is the state afterwards, how the job ended, and the upload workers it started.
\<close>

definition process_video_body ::
    "pubsub \<Rightarrow> job_env \<Rightarrow> video \<Rightarrow> pubsub \<times> push_outcome \<times> upload_request list" where
  "process_video_body ps env v =
     (let title = get_or (v_title v) ''Unknown Title'' in
      if \<not> truthy (v_url v) then (ps, Push_no_url, [])
      else
        let channel = find_channel_for_video (ps_channels ps) v;
            tiktok_cookie = job_tiktok_cookie channel;
            channel_name = job_channel_name channel
        in if v_id v = None then (ps, Push_error, [])
           else
             let d = download_video (ytdlp env) (pytube env) Absent
             in if \<not> returned_path d then (ps, Push_download_failed, [])
                else
                  case proxy_config_of (case channel of None \<Rightarrow> None | Some c \<Rightarrow> ch_proxy c) of
                    None \<Rightarrow> (ps, Push_error, [])
                  | Some proxy_config \<Rightarrow>
                      (case split_video (yt_monitor ps) env (file_after d \<noteq> Absent) 5
                              title tiktok_cookie proxy_config of
                         (split_videos, uploads) \<Rightarrow>
                           if split_videos = [] then (ps, Push_split_failed, [])
                           else (ps\<lparr>videos_processed := videos_processed ps + 1\<rparr>,
                                 Push_completed, uploads)))"

text \<open>
  \<^verbatim>\<open>process_video_async\<close>: the flag test, the flag set, the body, and the
  \<^verbatim>\<open>finally\<close> clause that clears the flag.
\<close>

definition process_video_async ::
    "pubsub \<Rightarrow> job_env \<Rightarrow> video \<Rightarrow> pubsub \<times> push_outcome \<times> upload_request list" where
  "process_video_async ps env v =
     (if processing_video ps then (ps, Push_dropped, [])
      else case process_video_body (ps\<lparr>processing_video := True\<rparr>) env v of
             (ps', outcome, uploads) \<Rightarrow> (ps'\<lparr>processing_video := False\<rparr>, outcome, uploads))"


section \<open>Jobs in flight\<close>

text \<open>
  The process as a transition system. A push job runs from the moment
  \<^verbatim>\<open>process_video_async\<close> sets \<^verbatim>\<open>processing_video\<close> until its \<^verbatim>\<open>finally\<close> clause.
  \<^verbatim>\<open>monitor_all_channels\<close> starts one thread per configured channel on
  \<^verbatim>\<open>check_channel_for_new_videos\<close> and joins them all, so each channel has at most one
  thread; a polling job runs in such a thread from the hash test until the thread
  returns. \<open>poll_jobs\<close> lists the channels (by position in the configuration) whose
  thread is inside a job.
\<close>

record system =
  n_channels :: nat
  sys_processing_video :: bool
  push_jobs :: nat
  poll_jobs :: "nat list"
  sys_video_hash_cache :: "string set"

datatype action =
  Push_arrives
  | Push_finishes
  | Poll_starts nat string
  | Poll_finishes nat string bool

text \<open>
  \<open>Push_arrives\<close>: \<^verbatim>\<open>process_video_async\<close> is entered.
  \<open>Push_finishes\<close>: the running push job reaches \<^verbatim>\<open>finally\<close>.
  \<open>Poll_starts i h\<close>: the thread of channel \<open>i\<close> tests the hash \<open>h\<close> of the newest video
  and, when it is new, goes on to download.
  \<open>Poll_finishes i h ok\<close>: that thread returns; \<open>ok\<close> tells whether it reached
  \<^verbatim>\<open>mark_video_processed\<close>.
\<close>

fun step :: "system \<Rightarrow> action \<Rightarrow> system" where
  "step s Push_arrives =
     (if sys_processing_video s then s
      else s\<lparr>sys_processing_video := True, push_jobs := push_jobs s + 1\<rparr>)"
| "step s Push_finishes =
     (if push_jobs s = 0 then s
      else s\<lparr>sys_processing_video := False, push_jobs := push_jobs s - 1\<rparr>)"
| "step s (Poll_starts i h) =
     (if i \<ge> n_channels s \<or> i \<in> set (poll_jobs s) then s
      else if h \<in> sys_video_hash_cache s then s
      else s\<lparr>poll_jobs := i # poll_jobs s\<rparr>)"
| "step s (Poll_finishes i h ok) =
     (if i \<notin> set (poll_jobs s) then s
      else if ok
        then s\<lparr>poll_jobs := removeAll i (poll_jobs s),
               sys_video_hash_cache := insert h (sys_video_hash_cache s)\<rparr>
        else s\<lparr>poll_jobs := removeAll i (poll_jobs s)\<rparr>)"

fun run :: "system \<Rightarrow> action list \<Rightarrow> system" where
  "run s [] = s"
| "run s (a # as) = run (step s a) as"

definition in_flight :: "system \<Rightarrow> nat" where
  "in_flight s = push_jobs s + length (poll_jobs s)"

text \<open>The process at start, with \<open>n\<close> configured channels.\<close>

definition init_system :: "nat \<Rightarrow> system" where
  "init_system n =
     \<lparr>n_channels = n, sys_processing_video = False, push_jobs = 0, poll_jobs = [],
      sys_video_hash_cache = {}\<rparr>"

section \<open>Sample inputs\<close>

text \<open>
  Concrete states, environments and events at which the properties below are
  evaluated: a monitor with the default configuration, a push subscriber with no
  channel configured, an environment in which the first yt-dlp attempt downloads a
  100-second video and every tool succeeds, one in which every yt-dlp attempt raises, a
  video and a channel.
\<close>

abbreviation sample_monitor :: monitor where
  "sample_monitor \<equiv>
     \<lparr>video_parts = 3, video_duration_limit = 113, auto_upload = True,
      video_hash_cache = {}, processed_videos = [], processed_videos_file = [],
      video_hash_cache_file = {}\<rparr>"

abbreviation sample_pubsub :: pubsub where
  "sample_pubsub \<equiv>
     \<lparr>ps_channels = [], ps_auto_upload = True, ps_processed_videos = {},
      ps_processed_videos_file = {}, processing_video = False, notifications_received = 0,
      videos_processed = 0, yt_monitor = sample_monitor\<rparr>"

abbreviation sample_env :: job_env where
  "sample_env \<equiv>
     \<lparr>ytdlp = (\<lambda>k. Returns (Present 1000)), pytube = No_streams, probed_duration = 100,
      write_ok = True, extract_ok = (\<lambda>p. True)\<rparr>"


abbreviation sample_video :: video where
  "sample_video \<equiv>
     \<lparr>v_id = Some ''abc'', v_title = Some ''T'', v_url = Some ''u'', v_author = None,
      v_channel_id = Some ''UC1''\<rparr>"


chapter \<open>Properties\<close>

section \<open>Evaluations at the sample inputs\<close>





section \<open>Segmentation bounds\<close>

lemma split_loop_elem:
  "(s, e) \<in> set (split_loop D pd js) \<Longrightarrow>
     \<exists>i \<in> set js. s = of_int (int i * pd) \<and> e = min (of_int ((int i + 1) * pd)) D
        \<and> s < D \<and> 3 \<le> e - s"
  by (induction js) (auto simp: Let_def split: if_splits)

lemma split_loop_length: "length (split_loop D pd js) \<le> length js"
  by (induction js) (auto simp: Let_def)

lemma split_loop_skip_rest:
  assumes lt: "of_int (int k * pd) < D"
    and short: "min (of_int ((int k + 1) * pd)) D - of_int (int k * pd) < 3"
  shows "split_loop D pd [Suc k ..< n] = []"
proof (rule ccontr)
  assume "split_loop D pd [Suc k ..< n] \<noteq> []"
  then obtain s e where "(s, e) \<in> set (split_loop D pd [Suc k ..< n])"
    by (cases "split_loop D pd [Suc k ..< n]") auto
  from split_loop_elem[OF this] obtain j where j: "Suc k \<le> j"
    and s: "s = of_int (int j * pd)" and e: "e = min (of_int ((int j + 1) * pd)) D"
    and sD: "s < D" and len: "3 \<le> e - s" by auto
  have "e - s \<le> of_int pd" unfolding s e by (simp add: algebra_simps)
  with len have pd3: "(3::rat) \<le> of_int pd" by linarith
  then have pdpos: "0 < pd" by linarith
  have "int (Suc k) * pd \<le> int j * pd" using j pdpos by (simp add: mult_right_mono)
  then have "(of_int (int (Suc k) * pd) :: rat) \<le> of_int (int j * pd)"
    by (simp only: of_int_le_iff)
  with sD s have "(of_int (int (Suc k) * pd) :: rat) < D" by linarith
  then have "min (of_int ((int k + 1) * pd)) D = (of_int ((int k + 1) * pd) :: rat)"
    by (simp add: min_def algebra_simps)
  with short have "(of_int ((int k + 1) * pd) :: rat) - of_int (int k * pd) < 3" by simp
  then have "(of_int pd :: rat) < 3" by (simp add: algebra_simps)
  with pd3 show False by linarith
qed

lemma split_loop_contiguous:
  "contiguous (split_loop D pd [k ..< n]) \<and>
   (\<forall>s e rest. split_loop D pd [k ..< n] = (s, e) # rest \<longrightarrow> s = of_int (int k * pd))"
proof (induction "n - k" arbitrary: k)
  case 0
  then show ?case by simp
next
  case (Suc m)
  then have kn: "k < n" and m: "m = n - Suc k" by auto
  have upt: "[k ..< n] = k # [Suc k ..< n]" using kn by (simp add: upt_conv_Cons)
  note IH = Suc.hyps(1)[OF m]
  show ?case
  proof (cases "of_int (int k * pd) \<ge> D")
    case True
    then show ?thesis by (simp add: upt)
  next
    case False
    then have lt: "of_int (int k * pd) < D" by simp
    show ?thesis
    proof (cases "min (of_int ((int k + 1) * pd)) D - of_int (int k * pd) < 3")
      case True
      from split_loop_skip_rest[OF lt True]
      show ?thesis using lt True by (simp add: upt Let_def)
    next
      case notshort: False
      let ?rest = "split_loop D pd [Suc k ..< n]"
      have eq: "split_loop D pd [k ..< n] =
          (of_int (int k * pd), min (of_int ((int k + 1) * pd)) D) # ?rest"
        using lt notshort by (simp add: upt Let_def)
      show ?thesis
      proof (cases ?rest)
        case Nil
        then show ?thesis by (simp add: eq)
      next
        case (Cons p ps)
        obtain s e where p: "p = (s, e)" by (cases p)
        from IH Cons p have s: "s = of_int (int (Suc k) * pd)" by simp
        have "(s, e) \<in> set ?rest" using Cons p by simp
        from split_loop_elem[OF this] have "s < D" by auto
        with s have "min (of_int ((int k + 1) * pd)) D = s"
          by (simp add: min_def algebra_simps)
        moreover have "contiguous ?rest" using IH by simp
        ultimately show ?thesis using Cons p by (simp add: eq)
      qed
    qed
  qed
qed

lemma segment_plan_count:
  "int (length (segment_plan D hint 113)) \<le> (if 3 \<le> D then max 1 (min hint \<lfloor>D / 113\<rfloor>) else 0)"
proof -
  have len: "length (segment_plan D hint 113) \<le> nat (actual_num_parts D hint 113)"
    using split_loop_length[of D 113 "[0 ..< nat (actual_num_parts D hint 113)]"]
    by (simp add: segment_plan_def)
  show ?thesis
  proof (cases "3 \<le> D")
    case True
    then have "actual_num_parts D hint 113 = max 1 (min hint \<lfloor>D / 113\<rfloor>)"
      by (simp add: actual_num_parts_def max_possible_parts_def)
    with len True show ?thesis by simp
  next
    case False
    then have "D / 113 < 1" by simp
    then have "\<lfloor>D / 113\<rfloor> \<le> 0" by (simp add: floor_le_iff)
    then have "min hint \<lfloor>D / 113\<rfloor> \<le> 0" by linarith
    then have "actual_num_parts D hint 113 \<le> 0"
      using False by (simp only: actual_num_parts_def max_possible_parts_def Let_def of_int_numeral if_False)
    with len have "length (segment_plan D hint 113) = 0" by simp
    with False show ?thesis by simp
  qed
qed

lemma segment_plan_elem:
  assumes "(s, e) \<in> set (segment_plan D hint 113)"
  shows "3 \<le> e - s \<and> e - s \<le> 113 \<and> 0 \<le> s \<and> e \<le> D"
proof -
  from assms have "(s, e) \<in> set (split_loop D 113 [0 ..< nat (actual_num_parts D hint 113)])"
    by (simp add: segment_plan_def)
  from split_loop_elem[OF this] obtain i where
    s: "s = of_int (int i * 113)" and e: "e = min (of_int ((int i + 1) * 113)) D"
    and len: "3 \<le> e - s" by auto
  have "e - s \<le> 113" unfolding s e by (simp add: algebra_simps)
  moreover have "0 \<le> s" unfolding s by simp
  moreover have "e \<le> D" unfolding e by simp
  ultimately show ?thesis using len by simp
qed

lemma segment_plan_contiguous: "contiguous (segment_plan D hint 113)"
  using split_loop_contiguous[of D 113 0 "nat (actual_num_parts D hint 113)"]
  by (simp add: segment_plan_def)

lemma contiguous_ordered:
  "contiguous xs \<Longrightarrow> \<forall>p \<in> set xs. fst p \<le> snd p \<Longrightarrow>
   sorted_wrt (\<lambda>x y. snd x \<le> fst y) xs"
proof (induction xs rule: contiguous.induct)
  case 1
  then show ?case by simp
next
  case (2 x)
  then show ?case by simp
next
  case (3 x y zs)
  then have sw: "sorted_wrt (\<lambda>x y. snd x \<le> fst y) (y # zs)" and xy: "snd x = fst y"
    and yy: "fst y \<le> snd y" by auto
  have "\<forall>z \<in> set (y # zs). snd x \<le> fst z"
  proof
    fix z assume "z \<in> set (y # zs)"
    then consider "z = y" | "z \<in> set zs" by auto
    then show "snd x \<le> fst z"
    proof cases
      case 1
      then show ?thesis using xy by simp
    next
      case 2
      with sw have "snd y \<le> fst z" by simp
      with xy yy show ?thesis by simp
    qed
  qed
  with sw show ?case by simp
qed

lemma segment_plan_ordered:
  "sorted_wrt (\<lambda>x y. snd x \<le> fst y) (segment_plan D hint 113)"
proof (rule contiguous_ordered [OF segment_plan_contiguous])
  show "\<forall>p \<in> set (segment_plan D hint 113). fst p \<le> snd p"
  proof
    fix p assume p: "p \<in> set (segment_plan D hint 113)"
    obtain s e where se: "p = (s, e)" by (cases p)
    from segment_plan_elem [of s e D hint] p se show "fst p \<le> snd p" by simp
  qed
qed

lemma emitted_subset:
  "set (ffmpeg_split_video file_exists (Some D) ok hint 113)
     \<subseteq> set (segment_plan D hint 113)"
  by (auto simp: ffmpeg_split_video_def)

lemma emitted_all_ok:
  "file_exists \<Longrightarrow> \<forall>p \<in> set (segment_plan D hint 113). ok p \<Longrightarrow>
   ffmpeg_split_video file_exists (Some D) ok hint 113 = segment_plan D hint 113"
  by (simp add: ffmpeg_split_video_def)

text \<open>
  Claim C4, as the code has it. For every duration \<open>D\<close> and every part-count hint, with
  a maximum part duration of 113 seconds, and whatever ffmpeg does on the single parts
  (\<open>ok\<close>): every segment the splitter emits is between 3 and 113 seconds long and
  lies inside the video; the emitted segments are ordered and do not overlap (each ends
  at or before the start of every later one); they are contiguous when ffmpeg succeeds
  on every planned part; and their number is at most
  \<open>max(1, min(hint, floor(D / 113)))\<close> when \<open>D\<close> is at least 3 seconds, and zero
  otherwise.
\<close>

theorem emitted_segments_bounds:
  "(\<forall>(s, e) \<in> set (ffmpeg_split_video file_exists (Some D) ok hint 113).
      3 \<le> e - s \<and> e - s \<le> 113 \<and> 0 \<le> s \<and> e \<le> D)
   \<and> sorted_wrt (\<lambda>x y. snd x \<le> fst y)
        (ffmpeg_split_video file_exists (Some D) ok hint 113)
   \<and> ((\<forall>p \<in> set (segment_plan D hint 113). ok p) \<longrightarrow>
        contiguous (ffmpeg_split_video file_exists (Some D) ok hint 113))
   \<and> int (length (ffmpeg_split_video file_exists (Some D) ok hint 113))
        \<le> (if 3 \<le> D then max 1 (min hint \<lfloor>D / 113\<rfloor>) else 0)"
proof (intro conjI)
  show "\<forall>(s, e) \<in> set (ffmpeg_split_video file_exists (Some D) ok hint 113).
      3 \<le> e - s \<and> e - s \<le> 113 \<and> 0 \<le> s \<and> e \<le> D"
    using emitted_subset [of file_exists D ok hint] segment_plan_elem [of _ _ D hint]
    by blast
next
  show "sorted_wrt (\<lambda>x y. snd x \<le> fst y)
        (ffmpeg_split_video file_exists (Some D) ok hint 113)"
    using segment_plan_ordered [of D hint]
    by (simp add: ffmpeg_split_video_def sorted_wrt_filter)
next
  show "(\<forall>p \<in> set (segment_plan D hint 113). ok p) \<longrightarrow>
        contiguous (ffmpeg_split_video file_exists (Some D) ok hint 113)"
    using segment_plan_contiguous [of D hint]
    by (simp add: ffmpeg_split_video_def)
next
  have "length (ffmpeg_split_video file_exists (Some D) ok hint 113)
          \<le> length (segment_plan D hint 113)"
    by (simp add: ffmpeg_split_video_def)
  with segment_plan_count [of D hint]
  show "int (length (ffmpeg_split_video file_exists (Some D) ok hint 113))
        \<le> (if 3 \<le> D then max 1 (min hint \<lfloor>D / 113\<rfloor>) else 0)"
    by linarith
qed

text \<open>
  The theorem at a 400-second video with a hint of five parts and ffmpeg succeeding
  throughout: three contiguous segments of 113 seconds.
\<close>

lemma plan_400: "segment_plan 400 5 113 = [(0, 113), (113, 226), (226, 339)]"
  by code_simp

theorem emitted_segments_bounds_witness:
  "ffmpeg_split_video True (Some 400) (\<lambda>p. True) 5 113 = [(0, 113), (113, 226), (226, 339)]
   \<and> (113, 226) \<in> set (ffmpeg_split_video True (Some 400) (\<lambda>p. True) 5 113)
   \<and> (3::rat) \<le> 226 - 113 \<and> (226::rat) - 113 \<le> 113 \<and> (226::rat) \<le> 400
   \<and> contiguous (ffmpeg_split_video True (Some 400) (\<lambda>p. True) 5 113)
   \<and> sorted_wrt (\<lambda>x y. snd x \<le> fst y) (ffmpeg_split_video True (Some 400) (\<lambda>p. True) 5 113)
   \<and> int (length (ffmpeg_split_video True (Some 400) (\<lambda>p. True) 5 113)) \<le> 3"
proof -
  have ev: "ffmpeg_split_video True (Some 400) (\<lambda>p. True) 5 113
            = [(0, 113), (113, 226), (226, 339)]"
    by (simp add: ffmpeg_split_video_def plan_400)
  have fl: "\<lfloor>(400::rat) / 113\<rfloor> = 3" by code_simp
  show ?thesis
    using emitted_segments_bounds [of True 400 "\<lambda>p. True" 5] unfolding ev fl by simp
qed

text \<open>
  The claim as stated fails twice. The bound \<open>min(hint, floor(D / 113))\<close> is zero for a
  50-second video, which yields one segment. And when ffmpeg fails on the middle part
  of a 400-second video, that part is left out of the result, so the emitted segments
  \<open>[0, 113)\<close> and \<open>[226, 339)\<close> are not contiguous.
\<close>

theorem emitted_count_and_gap:
  "\<not> int (length (ffmpeg_split_video True (Some 50) (\<lambda>p. True) 3 113))
        \<le> min 3 \<lfloor>50 / 113 :: rat\<rfloor>
   \<and> \<not> contiguous (ffmpeg_split_video True (Some 400) (\<lambda>p. p \<noteq> (113, 226)) 5 113)"
proof -
  have p50: "segment_plan 50 3 113 = [(0, 50)]" by code_simp
  have fl: "\<lfloor>(50::rat) / 113\<rfloor> = 0" by code_simp
  show ?thesis
    by (simp add: ffmpeg_split_video_def plan_400 p50 fl)
qed

text \<open>
  Claim C5, as the code has it. For a 300-second video with a maximum part duration of
  113 seconds and a hint of three parts, the splitter cuts exactly two segments,
  \<open>[0, 113)\<close> and \<open>[113, 226)\<close>: only \<open>floor(300 / 113) = 2\<close> parts are planned, and
  the remaining 74 seconds are not cut.
\<close>

theorem split_300_two_segments:
  "segment_plan 300 3 113 = [(0, 113), (113, 226)]"
  by code_simp

text \<open>The three-segment plan with the 74-second tail is not what the splitter produces.\<close>

theorem split_300_not_three_segments:
  "segment_plan 300 3 113 \<noteq> [(0, 113), (113, 226), (226, 300)]"
proof -
  have "segment_plan 300 3 113 = [(0, 113), (113, 226)]" by code_simp
  then show ?thesis by simp
qed

section \<open>Extension\<close>

text \<open>
  For a valid video shorter than 60 seconds whose extended file can be written, the
  extended file lasts \<open>D + min(63 - D, D)\<close> seconds: the video once, then one loop of
  at most its own length.
\<close>

lemma extension_duration:
  "3 \<le> D \<Longrightarrow> D < 60 \<Longrightarrow>
   process_video_for_upload True D = (True, Some (True, D + min (63 - D) D))"
  by (simp add: process_video_for_upload_def check_video_duration_requirements_def
      extend_video_to_minimum_duration_def)


lemma extension_not_shorter:
  "3 \<le> D \<Longrightarrow> D < 60 \<Longrightarrow> process_video_for_upload True D = (s, Some (e, d)) \<Longrightarrow> D \<le> d"
  using extension_duration [of D] by (auto simp: min_def)

text \<open>
  Claim C6 at a 10-second video: the extension step returns a file of 20 seconds, short
  of the 63-second target.
\<close>

theorem extension_misses_target:
  "process_video_for_upload True 10 = (True, Some (True, 20))"
  by (simp add: process_video_for_upload_def check_video_duration_requirements_def
      extend_video_to_minimum_duration_def)

section \<open>Download stage\<close>

text \<open>When the stage returns a path, the file exists and is not empty.\<close>

lemma download_loop_success_nonempty:
  "returned_path (download_loop yt py max_attempts attempt fs) \<Longrightarrow>
   \<exists>n. file_after (download_loop yt py max_attempts attempt fs) = Present n \<and> 0 < n"
proof (induction yt py max_attempts attempt fs rule: download_loop.induct)
  case (1 yt py max_attempts attempt fs)
  show ?case
  proof (cases "attempt < max_attempts")
    case True
    show ?thesis
    proof (cases "yt (attempt + 1)")
      case (Raises fs')
      show ?thesis
      proof (cases "attempt + 1 < max_attempts")
        case t: True
        have eq: "download_loop yt py max_attempts attempt fs
                  = download_loop yt py max_attempts (attempt + 1) fs'"
          using True Raises t by (subst download_loop.simps) simp
        show ?thesis using "1.IH" "1.prems" True Raises t unfolding eq by blast
      next
        case False
        then have "\<not> returned_path (download_loop yt py max_attempts attempt fs)"
          using True Raises by (subst download_loop.simps) simp
        with "1.prems" show ?thesis by simp
      qed
    next
      case (Returns fs')
      show ?thesis
      proof (cases fs')
        case Absent
        have eq: "download_loop yt py max_attempts attempt fs
                  = download_loop yt py max_attempts (attempt + 1) Absent"
          using True Returns Absent by (subst download_loop.simps) simp
        show ?thesis using "1.IH" "1.prems" True Returns Absent unfolding eq by blast
      next
        case (Present n)
        show ?thesis
        proof (cases "0 < n")
          case pos: True
          then show ?thesis
            using True Returns Present by (subst download_loop.simps) simp
        next
          case False
          have eq: "download_loop yt py max_attempts attempt fs
                    = download_loop yt py max_attempts (attempt + 1) Absent"
            using True Returns Present False by (subst download_loop.simps) simp
          show ?thesis using "1.IH" "1.prems" True Returns Present False
            unfolding eq by blast
        qed
      qed
    qed
  next
    case False
    then show ?thesis
      using "1.prems"
      by (subst (asm) download_loop.simps, subst download_loop.simps)
         (auto simp: download_video_pytube_fallback_def
               split: fallback.splits file_state.splits if_splits)
  qed
qed

text \<open>
  Claim C7 at two failing inputs. When both yt-dlp attempts raise, the stage returns
  no path without trying the fallback at all, although the fallback would have
  succeeded. When both attempts return without a file and the fallback raises after
  writing 512 bytes, the stage returns no path and the partial file stays on disk.
\<close>

theorem download_skips_fallback:
  "download_video (\<lambda>k. Raises Absent) (Fallback_returns (Present 1000)) Absent
     = \<lparr>returned_path = False, file_after = Absent, primary_attempts = 2, fallback_attempts = 0\<rparr>
   \<and> download_video (\<lambda>k. Returns Absent) (Fallback_raises (Present 512)) Absent
     = \<lparr>returned_path = False, file_after = Present 512, primary_attempts = 2, fallback_attempts = 1\<rparr>"
  by (simp add: download_video_def download_video_pytube_fallback_def download_loop.simps)

section \<open>Upload worker\<close>

text \<open>
  Claim C8, as the code has it. A worker whose part file exists and is not empty calls
  the uploader exactly once; it calls \<^verbatim>\<open>os.remove\<close> on the part exactly when that
  upload succeeded, and the part is gone afterwards exactly when the upload succeeded
  and the removal went through (a failing removal is logged and the part stays); after a
  failed upload the part is still there, unchanged. A worker whose part file is missing
  or empty uploads nothing, removes nothing and leaves the file as it was.
\<close>

theorem upload_part_worker_outcome:
  "(part = Present n \<and> 0 < n \<longrightarrow>
      upload_calls (upload_part_worker upload_ok remove_ok part) = 1
    \<and> remove_calls (upload_part_worker upload_ok remove_ok part) = (if upload_ok then 1 else 0)
    \<and> part_after (upload_part_worker upload_ok remove_ok part)
        = (if upload_ok \<and> remove_ok then Absent else part))
   \<and> (part = Absent \<or> part = Present 0 \<longrightarrow>
      upload_calls (upload_part_worker upload_ok remove_ok part) = 0
    \<and> remove_calls (upload_part_worker upload_ok remove_ok part) = 0
    \<and> part_after (upload_part_worker upload_ok remove_ok part) = part)"
  by (auto simp: upload_part_worker_def)

text \<open>
  The theorem at a 2048-byte part for the three outcomes of upload and removal, at an
  empty part and at a missing one.
\<close>

theorem upload_part_worker_outcome_witness:
  "upload_calls (upload_part_worker True True (Present 2048)) = 1
   \<and> remove_calls (upload_part_worker True True (Present 2048)) = 1
   \<and> part_after (upload_part_worker True True (Present 2048)) = Absent
   \<and> upload_calls (upload_part_worker True False (Present 2048)) = 1
   \<and> remove_calls (upload_part_worker True False (Present 2048)) = 1
   \<and> part_after (upload_part_worker True False (Present 2048)) = Present 2048
   \<and> upload_calls (upload_part_worker False True (Present 2048)) = 1
   \<and> remove_calls (upload_part_worker False True (Present 2048)) = 0
   \<and> part_after (upload_part_worker False True (Present 2048)) = Present 2048
   \<and> upload_calls (upload_part_worker True True (Present 0)) = 0
   \<and> part_after (upload_part_worker True True (Present 0)) = Present 0
   \<and> upload_calls (upload_part_worker True True Absent) = 0
   \<and> part_after (upload_part_worker True True Absent) = Absent"
  using upload_part_worker_outcome [of "Present 2048" 2048 True True]
    upload_part_worker_outcome [of "Present 2048" 2048 True False]
    upload_part_worker_outcome [of "Present 2048" 2048 False True]
    upload_part_worker_outcome [of "Present 0" 0 True True]
    upload_part_worker_outcome [of Absent 0 True True]
  by simp

text \<open>
  The claim as stated fails when the upload succeeds and \<^verbatim>\<open>os.remove\<close> raises: the
  worker made its one successful attempt, and the part file is still on disk.
\<close>

theorem uploaded_part_not_deleted:
  "upload_calls (upload_part_worker True False (Present 2048)) = 1
   \<and> part_after (upload_part_worker True False (Present 2048)) = Present 2048"
  by (simp add: upload_part_worker_def)

section \<open>The channel-list cache\<close>

lemma od_setitem_new:
  "k \<notin> fst ` set d \<Longrightarrow> od_setitem d k v = d @ [(k, v)]"
  by (induction d) auto

lemma od_setitem_length: "length (od_setitem d k v) \<le> Suc (length d)"
  by (induction d) auto

lemma cache_after_put:
  "scrapetube_cache (cache_scrapetube_data st channel_id videos now) =
     (let c1 = od_setitem (scrapetube_cache st) (cache_key channel_id) (videos, now)
      in if length c1 > max_cache_size st then od_popitem_first c1 else c1)"
  by (simp add: cache_scrapetube_data_def Let_def)

lemma max_cache_size_put [simp]:
  "max_cache_size (cache_scrapetube_data st channel_id videos now) = max_cache_size st"
  by (simp add: cache_scrapetube_data_def Let_def)

lemma max_cache_size_all [simp]: "max_cache_size (cache_all st puts) = max_cache_size st"
  by (induction st puts rule: cache_all.induct) simp_all

lemma put_keeps_bound:
  assumes "length (scrapetube_cache st) \<le> max_cache_size st"
  shows "length (scrapetube_cache (cache_scrapetube_data st channel_id videos now))
           \<le> max_cache_size st"
proof -
  let ?c1 = "od_setitem (scrapetube_cache st) (cache_key channel_id) (videos, now)"
  have "length ?c1 \<le> Suc (max_cache_size st)"
    using od_setitem_length [of "scrapetube_cache st" "cache_key channel_id" "(videos, now)"] assms
    by linarith
  then show ?thesis
    by (auto simp: cache_after_put Let_def od_popitem_first_def)
qed

lemma cache_all_keeps_bound:
  "length (scrapetube_cache st) \<le> max_cache_size st \<Longrightarrow>
   length (scrapetube_cache (cache_all st puts)) \<le> max_cache_size st"
proof (induction st puts rule: cache_all.induct)
  case (1 st)
  then show ?case by simp
next
  case (2 st channel_id videos now rest)
  from put_keeps_bound [OF "2.prems"]
  have "length (scrapetube_cache (cache_scrapetube_data st channel_id videos now))
          \<le> max_cache_size (cache_scrapetube_data st channel_id videos now)" by simp
  from "2.IH" [OF this] show ?case by simp
qed

lemma inj_cache_key: "cache_key a = cache_key b \<Longrightarrow> a = b"
  by (simp add: cache_key_def)

lemma tl_keys_disjoint:
  "fst ` set d \<inter> K = {} \<Longrightarrow> k \<notin> K \<Longrightarrow> fst ` set (tl (d @ [(k, v)])) \<inter> K = {}"
  by (cases d) auto

lemma tl_keys_append: "map fst (tl (d @ [(k, v)])) @ ks = tl (map fst d @ k # ks)"
  by (cases d) simp_all

lemma keys_fresh_rest:
  assumes "distinct (map fst (p # rest))"
    and "fst ` set d \<inter> cache_key ` fst ` set (p # rest) = {}"
  shows "cache_key (fst p) \<notin> fst ` set d"
    and "cache_key (fst p) \<notin> cache_key ` fst ` set rest"
    and "fst ` set d \<inter> cache_key ` fst ` set rest = {}"
proof -
  show "cache_key (fst p) \<notin> fst ` set d" using assms(2) by auto
  show "cache_key (fst p) \<notin> cache_key ` fst ` set rest"
  proof
    assume "cache_key (fst p) \<in> cache_key ` fst ` set rest"
    then obtain c where c: "c \<in> fst ` set rest" and "cache_key (fst p) = cache_key c" by auto
    then have "fst p = c" by (rule_tac inj_cache_key)
    with c assms(1) show False by simp
  qed
  show "fst ` set d \<inter> cache_key ` fst ` set rest = {}" using assms(2) by auto
qed

lemma cache_all_distinct_keys:
  assumes "length (scrapetube_cache st) \<le> max_cache_size st"
    and "distinct (map fst puts)"
    and "fst ` set (scrapetube_cache st) \<inter> cache_key ` fst ` set puts = {}"
  shows "map fst (scrapetube_cache (cache_all st puts)) =
         drop (length (scrapetube_cache st) + length puts - max_cache_size st)
           (map fst (scrapetube_cache st) @ map (cache_key \<circ> fst) puts)"
  using assms
proof (induction st puts rule: cache_all.induct)
  case (1 st)
  then show ?case by simp
next
  case (2 st channel_id videos now rest)
  define d where "d = scrapetube_cache st"
  define k where "k = cache_key channel_id"
  define st' where "st' = cache_scrapetube_data st channel_id videos now"
  define d' where "d' = scrapetube_cache st'"
  define mx where "mx = max_cache_size st"
  define ks where "ks = map (cache_key \<circ> fst) rest"
  have mx': "max_cache_size st' = mx" by (simp add: st'_def mx_def)
  have bound: "length d \<le> mx" using "2.prems"(1) by (simp add: d_def mx_def)
  have fresh: "k \<notin> fst ` set d" "k \<notin> cache_key ` fst ` set rest"
    "fst ` set d \<inter> cache_key ` fst ` set rest = {}"
    using keys_fresh_rest [OF "2.prems"(2), of "scrapetube_cache st"] "2.prems"(3)
    by (simp_all add: d_def k_def)
  have c1: "od_setitem d k (videos, now) = d @ [(k, (videos, now))]"
    by (rule od_setitem_new [OF fresh(1)])
  have put: "d' = (if length (d @ [(k, (videos, now))]) > mx
                   then tl (d @ [(k, (videos, now))]) else d @ [(k, (videos, now))])"
    unfolding d'_def st'_def cache_after_put Let_def od_popitem_first_def
    using c1 by (simp only: d_def k_def mx_def)
  have bound': "length (scrapetube_cache st') \<le> max_cache_size st'"
    using put_keeps_bound [OF "2.prems"(1), of channel_id videos now]
    by (simp add: st'_def)
  have dist': "distinct (map fst rest)" using "2.prems"(2) by simp
  have step: "cache_all st ((channel_id, videos, now) # rest) = cache_all st' rest"
    by (simp add: st'_def)
  have keys_all: "map (cache_key \<circ> fst) ((channel_id, videos, now) # rest) = k # ks"
    by (simp add: k_def ks_def)
  show ?case
  proof (cases "length d < mx")
    case True
    then have eq: "d' = d @ [(k, (videos, now))]" using put by simp
    have disj': "fst ` set (scrapetube_cache st') \<inter> cache_key ` fst ` set rest = {}"
      using fresh(2) fresh(3) unfolding d'_def [symmetric] eq by auto
    have IH: "map fst (scrapetube_cache (cache_all st' rest)) =
          drop (length d' + length rest - mx) (map fst d' @ ks)"
      using "2.IH" [OF bound' [unfolded st'_def] dist' disj' [unfolded st'_def]]
      unfolding d'_def ks_def st'_def mx_def max_cache_size_put .
    have "length d' + length rest - mx = length d + length ((channel_id, videos, now) # rest) - mx"
      unfolding eq by simp
    moreover have "map fst d' @ ks = map fst d @ k # ks" unfolding eq by simp
    ultimately show ?thesis
      unfolding step IH keys_all d_def [symmetric] mx_def [symmetric] by simp
  next
    case False
    with bound have full: "length d = mx" by simp
    then have eq: "d' = tl (d @ [(k, (videos, now))])" using put by simp
    have disj': "fst ` set (scrapetube_cache st') \<inter> cache_key ` fst ` set rest = {}"
      unfolding d'_def [symmetric] eq by (rule tl_keys_disjoint [OF fresh(3) fresh(2)])
    have IH: "map fst (scrapetube_cache (cache_all st' rest)) =
          drop (length d' + length rest - mx) (map fst d' @ ks)"
      using "2.IH" [OF bound' [unfolded st'_def] dist' disj' [unfolded st'_def]]
      unfolding d'_def ks_def st'_def mx_def max_cache_size_put .
    have len': "length d' = mx" unfolding eq using full by simp
    have e1: "length d' + length rest - mx = length rest" using len' by simp
    have e2: "length d + length ((channel_id, videos, now) # rest) - mx = Suc (length rest)"
      using full by simp
    have keys': "map fst d' @ ks = tl (map fst d @ k # ks)"
      unfolding eq by (rule tl_keys_append)
    have "drop (length rest) (tl (map fst d @ k # ks))
            = drop (Suc (length rest)) (map fst d @ k # ks)"
      by (simp only: drop_Suc)
    then show ?thesis
      unfolding step IH keys_all d_def [symmetric] mx_def [symmetric] e1 e2 keys' .
  qed
qed

lemma init_cache_fields:
  "max_cache_size init_cache = 50"
  "scrapetube_cache init_cache = []"
  by (simp_all add: init_cache_def)

lemma lru_keys:
  assumes m: "max_cache_size st = 50"
    and b: "length (scrapetube_cache st) \<le> 50"
    and d: "distinct (map fst puts)"
    and f: "fst ` set (scrapetube_cache st) \<inter> cache_key ` fst ` set puts = {}"
    and l: "length puts = 50 + k"
  shows "map fst (scrapetube_cache (cache_all st puts)) = map (cache_key \<circ> fst) (drop k puts)"
proof -
  have b': "length (scrapetube_cache st) \<le> max_cache_size st" using m b by simp
  have "map fst (scrapetube_cache (cache_all st puts)) =
        drop (length (scrapetube_cache st) + length puts - max_cache_size st)
          (map fst (scrapetube_cache st) @ map (cache_key \<circ> fst) puts)"
    by (rule cache_all_distinct_keys [OF b' d f])
  also have "length (scrapetube_cache st) + length puts - max_cache_size st
             = length (scrapetube_cache st) + k" using m l by simp
  also have "drop (length (scrapetube_cache st) + k)
          (map fst (scrapetube_cache st) @ map (cache_key \<circ> fst) puts)
        = map (cache_key \<circ> fst) (drop k puts)"
    by (simp add: drop_map)
  finally show ?thesis .
qed

text \<open>
  Claim C9. The capacity is 50. Take a cache within its capacity (the empty cache of a
  fresh start is one) and put \<open>50 + k\<close> entries under distinct channel ids that are not
  in the cache yet. Afterwards the cache holds exactly 50 entries, and they are the last
  50 of the keys put, in the order they were put: the \<open>k\<close> oldest of them, and
  everything that was in the cache before, have been evicted. Every single put leaves a
  cache that was within its capacity within its capacity, and so does every run of
  puts from the empty cache.
\<close>

theorem lru_cache_bound:
  "(max_cache_size st = 50 \<and> length (scrapetube_cache st) \<le> 50
      \<and> distinct (map fst puts)
      \<and> fst ` set (scrapetube_cache st) \<inter> cache_key ` fst ` set puts = {}
      \<and> length puts = 50 + k \<longrightarrow>
      map fst (scrapetube_cache (cache_all st puts)) = map (cache_key \<circ> fst) (drop k puts)
    \<and> length (scrapetube_cache (cache_all st puts)) = 50)
   \<and> (length (scrapetube_cache st') \<le> max_cache_size st' \<longrightarrow>
        length (scrapetube_cache (cache_scrapetube_data st' channel_id videos now))
          \<le> max_cache_size st')
   \<and> length (scrapetube_cache (cache_all init_cache any_puts)) \<le> 50"
proof (intro conjI impI)
  assume a: "max_cache_size st = 50 \<and> length (scrapetube_cache st) \<le> 50
      \<and> distinct (map fst puts)
      \<and> fst ` set (scrapetube_cache st) \<inter> cache_key ` fst ` set puts = {}
      \<and> length puts = 50 + k"
  then show keys: "map fst (scrapetube_cache (cache_all st puts))
                   = map (cache_key \<circ> fst) (drop k puts)"
    using lru_keys by blast
  have "length (map fst (scrapetube_cache (cache_all st puts))) = 50"
    unfolding keys using a by simp
  then show "length (scrapetube_cache (cache_all st puts)) = 50" by simp
next
  assume "length (scrapetube_cache st') \<le> max_cache_size st'"
  then show "length (scrapetube_cache (cache_scrapetube_data st' channel_id videos now))
          \<le> max_cache_size st'"
    by (rule put_keeps_bound)
next
  show "length (scrapetube_cache (cache_all init_cache any_puts)) \<le> 50"
    using cache_all_keeps_bound [of "init_cache :: 'c cache_state" any_puts]
    by (simp add: init_cache_def)
qed

text \<open>
  The theorem at 52 puts into the empty cache, under the channel ids of lengths
  \<open>0\<close> to \<open>51\<close>: the two oldest keys are gone and 50 entries remain.
\<close>

lemma inj_replicate: "inj_on (\<lambda>n. replicate n c) A"
  by (rule inj_onI) (metis length_replicate)

lemma distinct_replicate_keys: "distinct (map (\<lambda>n. replicate n c) [0 ..< m])"
  by (simp add: distinct_map inj_replicate)

theorem lru_cache_bound_witness:
  "map fst (scrapetube_cache (cache_all init_cache
         (map (\<lambda>n. (replicate n CHR ''c'', n, 0 :: rat)) [0 ..< 52])))
       = map (cache_key \<circ> fst) (drop 2 (map (\<lambda>n. (replicate n CHR ''c'', n, 0 :: rat)) [0 ..< 52]))
   \<and> length (scrapetube_cache (cache_all init_cache
         (map (\<lambda>n. (replicate n CHR ''c'', n, 0 :: rat)) [0 ..< 52]))) = 50
   \<and> length (scrapetube_cache (cache_scrapetube_data (init_cache :: nat cache_state) ''UC1'' 7 0)) \<le> 50"
proof -
  let ?puts = "map (\<lambda>n. (replicate n CHR ''c'', n, 0 :: rat)) [0 ..< 52]"
  let ?st = "init_cache :: nat cache_state"
  have "map fst ?puts = map (\<lambda>n. replicate n CHR ''c'') [0 ..< 52]"
    by (simp only: map_map comp_def fst_conv)
  then have d: "distinct (map fst ?puts)"
    by (simp only: distinct_replicate_keys)
  have l: "length ?puts = 50 + 2"
    by simp
  have m: "max_cache_size ?st = 50" by (rule init_cache_fields(1))
  have b: "length (scrapetube_cache ?st) \<le> 50" by (simp add: init_cache_fields)
  have f: "fst ` set (scrapetube_cache ?st) \<inter> cache_key ` fst ` set ?puts = {}"
    by (simp only: init_cache_fields list.set image_empty Int_empty_left)
  have b': "length (scrapetube_cache ?st) \<le> max_cache_size ?st"
    by (simp add: init_cache_fields)
  note t = lru_cache_bound [of ?st ?puts 2 ?st "''UC1''" 7 0]
  have one: "map fst (scrapetube_cache (cache_all ?st ?puts)) = map (cache_key \<circ> fst) (drop 2 ?puts)
    \<and> length (scrapetube_cache (cache_all ?st ?puts)) = 50"
    by (rule mp [OF conjunct1 [OF t]]) (intro conjI m b d f l)
  have two: "length (scrapetube_cache (cache_scrapetube_data ?st ''UC1'' 7 0)) \<le> max_cache_size ?st"
    by (rule mp [OF conjunct1 [OF conjunct2 [OF t]]]) (rule b')
  from two have two': "length (scrapetube_cache (cache_scrapetube_data ?st ''UC1'' 7 0)) \<le> 50"
    by (simp only: m)
  from one two' show ?thesis by (simp only: conj_assoc simp_thms)
qed

section \<open>Routing in the push path\<close>







section \<open>Jobs in flight\<close>

lemma step_n_channels [simp]: "n_channels (step s a) = n_channels s"
  by (cases a) simp_all

lemma step_keeps:
  assumes "push_jobs s \<le> 1" "sys_processing_video s = (push_jobs s = 1)"
    "distinct (poll_jobs s)" "set (poll_jobs s) \<subseteq> {..< n_channels s}"
  shows "push_jobs (step s a) \<le> 1 \<and> sys_processing_video (step s a) = (push_jobs (step s a) = 1)
         \<and> distinct (poll_jobs (step s a)) \<and> set (poll_jobs (step s a)) \<subseteq> {..< n_channels s}"
proof (cases a)
  case Push_arrives
  then show ?thesis using assms by auto
next
  case Push_finishes
  then show ?thesis using assms by auto
next
  case (Poll_starts i h)
  then show ?thesis using assms by auto
next
  case (Poll_finishes i h ok)
  then show ?thesis using assms by (auto simp: distinct_removeAll)
qed

lemma run_keeps:
  "push_jobs s \<le> 1 \<Longrightarrow> sys_processing_video s = (push_jobs s = 1) \<Longrightarrow>
   distinct (poll_jobs s) \<Longrightarrow> set (poll_jobs s) \<subseteq> {..< n_channels s} \<Longrightarrow>
   push_jobs (run s acts) \<le> 1 \<and> sys_processing_video (run s acts) = (push_jobs (run s acts) = 1)
   \<and> distinct (poll_jobs (run s acts)) \<and> set (poll_jobs (run s acts)) \<subseteq> {..< n_channels s}"
proof (induction acts arbitrary: s)
  case Nil
  then show ?case by simp
next
  case (Cons a acts)
  from step_keeps [OF Cons.prems, of a]
  have k: "push_jobs (step s a) \<le> 1" "sys_processing_video (step s a) = (push_jobs (step s a) = 1)"
    "distinct (poll_jobs (step s a))" "set (poll_jobs (step s a)) \<subseteq> {..< n_channels (step s a)}"
    by simp_all
  from Cons.IH [OF k] show ?case by simp
qed

lemma poll_jobs_bounded:
  assumes "distinct xs" "set xs \<subseteq> {..< (n::nat)}"
  shows "length xs \<le> n"
proof -
  have "length xs = card (set xs)" using assms(1) by (simp add: distinct_card)
  also have "\<dots> \<le> card {..< n}" using assms(2) by (intro card_mono) simp_all
  finally show ?thesis by simp
qed

text \<open>
  Claim C1, as the code has it. In every run of the process from its start, with \<open>n\<close>
  configured channels: at most one push job is in flight, and the flag
  \<^verbatim>\<open>processing_video\<close> is set exactly while one is; at most \<open>n\<close> polling jobs are in
  flight, one per channel thread; so at most \<open>1 + n\<close> jobs are in flight. A
  notification that arrives while the flag is set changes nothing:
  \<^verbatim>\<open>process_video_async\<close> returns at once without starting a job; a call made while
  the flag is clear is never dropped, and it leaves the flag cleared when it returns.
\<close>

theorem push_path_single_job:
  "push_jobs (run (init_system n) acts) \<le> 1
   \<and> sys_processing_video (run (init_system n) acts) = (push_jobs (run (init_system n) acts) = 1)
   \<and> length (poll_jobs (run (init_system n) acts)) \<le> n
   \<and> in_flight (run (init_system n) acts) \<le> 1 + n
   \<and> step (s\<lparr>sys_processing_video := True\<rparr>) Push_arrives = s\<lparr>sys_processing_video := True\<rparr>
   \<and> process_video_async (ps\<lparr>processing_video := True\<rparr>) env v
       = (ps\<lparr>processing_video := True\<rparr>, Push_dropped, [])
   \<and> fst (snd (process_video_async (ps\<lparr>processing_video := False\<rparr>) env v)) \<noteq> Push_dropped
   \<and> \<not> processing_video (fst (process_video_async (ps\<lparr>processing_video := False\<rparr>) env v))"
proof -
  let ?r = "run (init_system n) acts"
  have k: "push_jobs ?r \<le> 1" "sys_processing_video ?r = (push_jobs ?r = 1)"
    "distinct (poll_jobs ?r)" "set (poll_jobs ?r) \<subseteq> {..< n}"
    using run_keeps [of "init_system n" acts] by (simp_all add: init_system_def)
  have len: "length (poll_jobs ?r) \<le> n" by (rule poll_jobs_bounded [OF k(3) k(4)])
  have fl: "in_flight ?r \<le> 1 + n" using k(1) len by (simp add: in_flight_def)
  have drop: "process_video_async (ps\<lparr>processing_video := True\<rparr>) env v
       = (ps\<lparr>processing_video := True\<rparr>, Push_dropped, [])"
    by (simp add: process_video_async_def)
  have fin: "\<not> processing_video (fst (process_video_async (ps\<lparr>processing_video := False\<rparr>) env v))"
    by (simp add: process_video_async_def split: prod.splits)
  have started:
    "fst (snd (process_video_async (ps\<lparr>processing_video := False\<rparr>) env v)) \<noteq> Push_dropped"
    by (auto simp: process_video_async_def process_video_body_def Let_def
        split: prod.splits option.splits if_splits)
  show ?thesis using k(1) k(2) len fl drop started fin by simp
qed

text \<open>
  The theorem at two notifications followed by a poll of channel 0, with two channels
  configured: the second notification is dropped.
\<close>

theorem push_path_single_job_witness:
  "push_jobs (run (init_system 2) [Push_arrives, Push_arrives, Poll_starts 0 ''h0'']) = 1
   \<and> in_flight (run (init_system 2) [Push_arrives, Push_arrives, Poll_starts 0 ''h0'']) \<le> 3
   \<and> process_video_async (sample_pubsub\<lparr>processing_video := True\<rparr>) sample_env sample_video
       = (sample_pubsub\<lparr>processing_video := True\<rparr>, Push_dropped, [])
   \<and> fst (snd (process_video_async sample_pubsub sample_env sample_video)) \<noteq> Push_dropped"
  using push_path_single_job [of 2 "[Push_arrives, Push_arrives, Poll_starts 0 ''h0'']"
      _ sample_pubsub sample_env sample_video]
  by (simp add: init_system_def)

text \<open>
  The claim as stated fails on the polling path, which has no gate: with two channels
  configured, the threads of both channels are inside a job at the same time.
\<close>

theorem polling_jobs_overlap:
  "in_flight (run (init_system 2) [Poll_starts 0 ''h0'', Poll_starts 1 ''h1'']) = 2"
  by (simp add: init_system_def in_flight_def)

section \<open>The two dedup checks\<close>







section \<open>Dedup state after a failed job\<close>









end
